theory Spec2Isabelle
  imports Main
begin

section \<open>Data model\<close>

text \<open>
  The program is \<^verbatim>\<open>src/frontend_react_js/src/App.js\<close>. A square holds \<^verbatim>\<open>null\<close>,
  \<^verbatim>\<open>"X"\<close> or \<^verbatim>\<open>"O"\<close>. A JavaScript array can also have holes (an index below its
  length that was never written): a hole reads as \<^verbatim>\<open>undefined\<close>, which is falsy like
  \<^verbatim>\<open>null\<close>, but \<^verbatim>\<open>Array.prototype.every\<close> skips it. A read at or beyond the
  length gives \<^verbatim>\<open>undefined\<close> as well, and a write there extends the array, leaving
  holes in between.
\<close>

text \<open>The symbols \<^verbatim>\<open>"X"\<close> and \<^verbatim>\<open>"O"\<close> (the name \<open>O\<close> is taken by relation
  composition).\<close>

datatype player = PX | PO

datatype cell = Hole | Null | Mark player

type_synonym board = "cell list"

text \<open>\<^verbatim>\<open>squares[i]\<close> for an index \<open>i \<ge> 0\<close>; \<open>Hole\<close> stands for \<^verbatim>\<open>undefined\<close>.\<close>

definition get :: "board \<Rightarrow> nat \<Rightarrow> cell" where
  "get b i = (if i < length b then b ! i else Hole)"

text \<open>\<^verbatim>\<open>squares[i] = v\<close> for an index \<open>i \<ge> 0\<close>: in range it overwrites, out of range
  it extends the array.\<close>

definition put :: "board \<Rightarrow> nat \<Rightarrow> cell \<Rightarrow> board" where
  "put b i v =
     (if i < length b then b[i := v]
      else b @ replicate (i - length b) Hole @ [v])"

text \<open>Truthiness of a cell value: only \<^verbatim>\<open>"X"\<close> and \<^verbatim>\<open>"O"\<close> are truthy.\<close>

fun truthy :: "cell \<Rightarrow> bool" where
  "truthy (Mark p) = True"
| "truthy Null = False"
| "truthy Hole = False"

text \<open>\<^verbatim>\<open>squares.every((v) => v)\<close> and \<^verbatim>\<open>board.every(Boolean)\<close>: every element that is
  not a hole is truthy.\<close>

definition every :: "board \<Rightarrow> bool" where
  "every b = list_all (\<lambda>c. c \<noteq> Null) b"

text \<open>\<^verbatim>\<open>Array(9).fill(null)\<close>.\<close>

definition emptyBoard :: board where
  "emptyBoard = replicate 9 Null"

text \<open>The boards of the data model: nine cells, each \<^verbatim>\<open>null\<close>, \<^verbatim>\<open>"X"\<close> or
  \<^verbatim>\<open>"O"\<close>.\<close>

definition validBoard :: "board \<Rightarrow> bool" where
  "validBoard b = (length b = 9 \<and> list_all (\<lambda>c. c \<noteq> Hole) b)"

section \<open>Board queries\<close>

type_synonym line = "nat \<times> nat \<times> nat"

definition lines :: "line list" where
  "lines =
     [(0, 1, 2), (3, 4, 5), (6, 7, 8),
      (0, 3, 6), (1, 4, 7), (2, 5, 8),
      (0, 4, 8), (2, 4, 6)]"

text \<open>The test of the \<^verbatim>\<open>if\<close> in the loop of \<^verbatim>\<open>calculateWinner\<close>.\<close>

fun lineWon :: "board \<Rightarrow> line \<Rightarrow> bool" where
  "lineWon sq (a, b, c) =
     (truthy (get sq a) \<and> get sq a = get sq b \<and> get sq a = get sq c)"

text \<open>The loop \<^verbatim>\<open>for (const line of lines)\<close> with its early return; the result
  \<^verbatim>\<open>[squares[a], line]\<close> or \<^verbatim>\<open>[null, null]\<close> is a pair of options. When the test
  of the line holds, \<^verbatim>\<open>squares[a]\<close> is truthy, hence a symbol: the other branches of
  the \<open>case\<close> are never taken.\<close>

fun scanLines :: "board \<Rightarrow> line list \<Rightarrow> player option \<times> line option" where
  "scanLines sq [] = (None, None)"
| "scanLines sq ((a, b, c) # ls) =
     (if lineWon sq (a, b, c)
      then (case get sq a of Mark p \<Rightarrow> (Some p, Some (a, b, c)) | _ \<Rightarrow> (None, None))
      else scanLines sq ls)"

definition calculateWinner :: "board \<Rightarrow> player option \<times> line option" where
  "calculateWinner sq = scanLines sq lines"

definition isDraw :: "board \<Rightarrow> bool" where
  "isDraw sq = (every sq \<and> fst (calculateWinner sq) = None)"

section \<open>The search engine\<close>

text \<open>
  Scores are JavaScript numbers. The loops start from \<^verbatim>\<open>-Infinity\<close> or
  \<^verbatim>\<open>Infinity\<close>; every other score is an integer of small magnitude, so the finite
  scores are modelled as unbounded integers.
\<close>

datatype number = NegInf | Fin int | PosInf

fun sle :: "number \<Rightarrow> number \<Rightarrow> bool" where
  "sle NegInf _ = True"
| "sle (Fin a) NegInf = False"
| "sle (Fin a) (Fin b) = (a \<le> b)"
| "sle (Fin a) PosInf = True"
| "sle PosInf PosInf = True"
| "sle PosInf _ = False"

instantiation number :: linorder
begin

definition less_eq_number :: "number \<Rightarrow> number \<Rightarrow> bool" where
  "less_eq_number a b = sle a b"

definition less_number :: "number \<Rightarrow> number \<Rightarrow> bool" where
  "less_number a b = (sle a b \<and> \<not> sle b a)"

instance
proof
  fix x y z :: number
  show "(x < y) = (x \<le> y \<and> \<not> y \<le> x)"
    by (simp add: less_eq_number_def less_number_def)
  show "x \<le> x"
    by (cases x) (simp_all add: less_eq_number_def)
  show "x \<le> y \<Longrightarrow> y \<le> z \<Longrightarrow> x \<le> z"
    by (cases x; cases y; cases z) (simp_all add: less_eq_number_def)
  show "x \<le> y \<Longrightarrow> y \<le> x \<Longrightarrow> x = y"
    by (cases x; cases y) (simp_all add: less_eq_number_def)
  show "x \<le> y \<or> y \<le> x"
    by (cases x; cases y) (auto simp: less_eq_number_def)
qed

end

text \<open>\<^verbatim>\<open>const human = aiPlayer === "X" ? "O" : "X"\<close>.\<close>

definition human :: "player \<Rightarrow> player" where
  "human aiPlayer = (if aiPlayer = PX then PO else PX)"

text \<open>The number of falsy cells among the indices the loops visit.\<close>

definition empties :: "board \<Rightarrow> nat" where
  "empties b = length (filter (\<lambda>i. \<not> truthy (get b i)) [0..<9])"

text \<open>
  \<^verbatim>\<open>minimax(board, depth, isMax)\<close>, the inner function of \<^verbatim>\<open>computeAIMove\<close>, with
  the captured \<^verbatim>\<open>aiPlayer\<close> as its first argument. The source writes the tentative
  symbol into the shared array and restores \<^verbatim>\<open>null\<close> after the recursive call; on a
  board of the data model the restored array is the array before the write, so the model
  passes the updated board to the recursive call and keeps the old one.
\<close>

function minimax :: "player \<Rightarrow> board \<Rightarrow> int \<Rightarrow> bool \<Rightarrow> number" where
  "minimax aiPlayer b depth isMax =
     (let winner = fst (calculateWinner b) in
      if winner = Some aiPlayer then Fin (10 - depth)
      else if winner = Some (human aiPlayer) then Fin (depth - 10)
      else if every b then Fin 0
      else
        fold (\<lambda>i best.
                if \<not> truthy (get b i)
                then (let s = minimax aiPlayer
                                (put b i (Mark (if isMax then aiPlayer else human aiPlayer)))
                                (depth + 1) (\<not> isMax)
                      in if isMax then max best s else min best s)
                else best)
             [0..<9]
             (if isMax then NegInf else PosInf))"
  by pat_completeness auto

section \<open>Basic facts about boards\<close>

lemma get_put: "get (put b i v) j = (if j = i then v else get b j)"
  by (auto simp: get_def put_def nth_append nth_Cons')

lemma empties_card: "empties b = card {i. i < 9 \<and> \<not> truthy (get b i)}"
proof -
  have "empties b = card (set (filter (\<lambda>i. \<not> truthy (get b i)) [0..<9]))"
    unfolding empties_def by (rule distinct_card [symmetric]) simp
  also have "set (filter (\<lambda>i. \<not> truthy (get b i)) [0..<9]) = {i. i < 9 \<and> \<not> truthy (get b i)}"
    by auto
  finally show ?thesis .
qed

lemma empties_put:
  assumes "i < 9" and "\<not> truthy (get b i)"
  shows "empties (put b i (Mark p)) < empties b"
proof -
  have "{j. j < 9 \<and> \<not> truthy (get (put b i (Mark p)) j)} \<subset> {j. j < 9 \<and> \<not> truthy (get b j)}"
    using assms by (auto simp: get_put)
  then show ?thesis
    unfolding empties_card by (intro psubset_card_mono) auto
qed

termination minimax
  by (relation "measure (\<lambda>(a, b, d, m). empties b)") (auto intro: empties_put)

declare minimax.simps [simp del]

text \<open>\<^verbatim>\<open>squares.findIndex((v) => !v)\<close>: the first index whose element passes the test,
  or \<open>-1\<close>; unlike \<^verbatim>\<open>every\<close> it visits holes, as \<^verbatim>\<open>undefined\<close>.\<close>

fun findIndexFrom :: "(cell \<Rightarrow> bool) \<Rightarrow> board \<Rightarrow> int \<Rightarrow> int" where
  "findIndexFrom P [] k = -1"
| "findIndexFrom P (v # vs) k = (if P v then k else findIndexFrom P vs (k + 1))"

definition findIndex :: "(cell \<Rightarrow> bool) \<Rightarrow> board \<Rightarrow> int" where
  "findIndex P vs = findIndexFrom P vs 0"

text \<open>
  \<^verbatim>\<open>computeAIMove(squares, aiPlayer)\<close>: the loop carries \<^verbatim>\<open>bestScore\<close> and
  \<^verbatim>\<open>move\<close>; the result is a JavaScript number, \<open>-1\<close> when nothing is found.
\<close>

definition computeAIMove :: "board \<Rightarrow> player \<Rightarrow> int" where
  "computeAIMove squares aiPlayer =
     (let (bestScore, move) =
        fold (\<lambda>i (bestScore, move).
                if \<not> truthy (get squares i)
                then (let s = minimax aiPlayer (put squares i (Mark aiPlayer)) 0 False
                      in if bestScore < s then (s, int i) else (bestScore, move))
                else (bestScore, move))
             [0..<9]
             (NegInf, -1)
      in if move = -1 then findIndex (\<lambda>v. \<not> truthy v) squares else move)"

section \<open>The game controller\<close>

text \<open>
  The component \<^verbatim>\<open>App\<close> keeps its state in React hooks: \<^verbatim>\<open>mode\<close>,
  \<^verbatim>\<open>squares\<close>, \<^verbatim>\<open>xIsNext\<close>, \<^verbatim>\<open>status\<close> and \<^verbatim>\<open>score\<close>. The flag
  \<^verbatim>\<open>disableAnim\<close> only drives an animation and is left out; \<^verbatim>\<open>winner\<close> and
  \<^verbatim>\<open>winningLine\<close> are recomputed from \<^verbatim>\<open>squares\<close> at every render.
\<close>

datatype mode = Pvp | Ai

datatype status = Ongoing | Win | Draw

record tally =
  scoreX :: nat
  scoreO :: nat
  scoreD :: nat

record game =
  mode :: mode
  squares :: board
  xIsNext :: bool
  status :: status
  score :: tally

definition initialGame :: game where
  "initialGame =
     \<lparr>mode = Pvp, squares = emptyBoard, xIsNext = True, status = Ongoing,
      score = \<lparr>scoreX = 0, scoreO = 0, scoreD = 0\<rparr>\<rparr>"

text \<open>\<^verbatim>\<open>[winner]: (prev[winner] || 0) + 1\<close>.\<close>

fun bump :: "player \<Rightarrow> tally \<Rightarrow> tally" where
  "bump PX t = t\<lparr>scoreX := scoreX t + 1\<rparr>"
| "bump PO t = t\<lparr>scoreO := scoreO t + 1\<rparr>"

text \<open>The effect "Check for game over" (lines 289 to 305). React runs it after a render
  in which \<^verbatim>\<open>squares\<close> is a new array.\<close>

definition gameOverEffect :: "game \<Rightarrow> game" where
  "gameOverEffect st =
     (case fst (calculateWinner (squares st)) of
        Some winner \<Rightarrow> st\<lparr>status := Win, score := bump winner (score st)\<rparr>
      | None \<Rightarrow>
          if isDraw (squares st)
          then st\<lparr>status := Draw, score := (score st)\<lparr>scoreD := scoreD (score st) + 1\<rparr>\<rparr>
          else st\<lparr>status := Ongoing\<rparr>)"

text \<open>
  An index is a JavaScript number; the model takes the integers. A negative index reads
  \<^verbatim>\<open>undefined\<close>, and writing to it sets a property that is not an element, which
  \<^verbatim>\<open>slice\<close> does not copy: the elements stay as they are. The model keeps the
  elements only, so it does not see that property on the one array that was written; a
  read of it there would find the symbol and make the handler return, which changes
  nothing. No state reached through the rendered page writes at a negative index.
\<close>

definition cellAt :: "board \<Rightarrow> int \<Rightarrow> cell" where
  "cellAt sq i = (if i < 0 then Hole else get sq (nat i))"

definition setAt :: "board \<Rightarrow> int \<Rightarrow> cell \<Rightarrow> board" where
  "setAt sq i v = (if i < 0 then sq else put sq (nat i) v)"

text \<open>\<^verbatim>\<open>handleSquareClick(i, isAI)\<close>: \<open>None\<close> when the handler returns before it sets
  any state, otherwise the state with \<^verbatim>\<open>setSquares\<close> and \<^verbatim>\<open>setXIsNext\<close> applied.\<close>

definition handleSquareClick :: "game \<Rightarrow> int \<Rightarrow> bool \<Rightarrow> game option" where
  "handleSquareClick st i isAI =
     (if truthy (cellAt (squares st) i) \<or> fst (calculateWinner (squares st)) \<noteq> None
         \<or> status st = Draw
      then None
      else if mode st = Ai \<and> \<not> xIsNext st \<and> \<not> isAI then None
      else Some (st\<lparr>squares := setAt (squares st) i (Mark (if xIsNext st then PX else PO)),
                    xIsNext := \<not> xIsNext st\<rparr>))"

text \<open>A move as the user sees it: the handler, the render and the game-over effect.\<close>

definition applyMove :: "game \<Rightarrow> int \<Rightarrow> bool \<Rightarrow> game" where
  "applyMove st i isAI =
     (case handleSquareClick st i isAI of
        None \<Rightarrow> st
      | Some st' \<Rightarrow> gameOverEffect st')"

text \<open>\<^verbatim>\<open>handleRestart\<close> always sets a new array, so the game-over effect runs.\<close>

definition handleRestart :: "game \<Rightarrow> game" where
  "handleRestart st = st\<lparr>squares := emptyBoard, xIsNext := True\<rparr>"

definition restart :: "game \<Rightarrow> game" where
  "restart st = gameOverEffect (handleRestart st)"

definition handleReset :: "game \<Rightarrow> game" where
  "handleReset st = st\<lparr>score := \<lparr>scoreX = 0, scoreO = 0, scoreD = 0\<rparr>\<rparr>"

definition handleModeChange :: "game \<Rightarrow> mode \<Rightarrow> game" where
  "handleModeChange st val = handleRestart (st\<lparr>mode := val\<rparr>)"

definition modeChange :: "game \<Rightarrow> mode \<Rightarrow> game" where
  "modeChange st val = gameOverEffect (handleModeChange st val)"

text \<open>The effect "Computer move" (lines 308 to 324): its condition, and what the timer
  does when it fires. The spread \<^verbatim>\<open>[...squares]\<close> copies the array and turns holes
  into \<^verbatim>\<open>undefined\<close> elements, which the engine cannot tell from \<^verbatim>\<open>null\<close>.\<close>

definition spread :: "board \<Rightarrow> board" where
  "spread sq = map (\<lambda>c. if c = Hole then Null else c) sq"

definition computerTurn :: "game \<Rightarrow> bool" where
  "computerTurn st =
     (mode st = Ai \<and> fst (calculateWinner (squares st)) = None
      \<and> \<not> isDraw (squares st) \<and> \<not> xIsNext st)"

definition computerMove :: "game \<Rightarrow> game" where
  "computerMove st = applyMove st (computeAIMove (spread (squares st)) PO) True"

text \<open>The states reached through the rendered page: the initial one, and those reached by a
  click on one of the nine squares that \<^verbatim>\<open>Board\<close> renders (indexes \<open>3 * row + col\<close>,
  so \<open>0\<close> to \<open>8\<close>), the two buttons, the mode selector and the computer's timer. Every
  event runs to its end, effects included, before the next one; the delay of the timer and
  its cancellation are not modelled.\<close>

inductive reachable :: "game \<Rightarrow> bool" where
  r_init: "reachable initialGame"
| r_click: "reachable st \<Longrightarrow> i < 9 \<Longrightarrow> reachable (applyMove st (int i) False)"
| r_restart: "reachable st \<Longrightarrow> reachable (restart st)"
| r_reset: "reachable st \<Longrightarrow> reachable (handleReset st)"
| r_mode: "reachable st \<Longrightarrow> reachable (modeChange st val)"
| r_computer: "reachable st \<Longrightarrow> computerTurn st \<Longrightarrow> reachable (computerMove st)"

text \<open>The states reached through the operations themselves: the same events, but
  \<^verbatim>\<open>handleSquareClick\<close> called by hand with any integer index, as the handler itself
  allows.\<close>

inductive reachableAnyIndex :: "game \<Rightarrow> bool" where
  a_init: "reachableAnyIndex initialGame"
| a_click: "reachableAnyIndex st \<Longrightarrow> reachableAnyIndex (applyMove st i False)"
| a_restart: "reachableAnyIndex st \<Longrightarrow> reachableAnyIndex (restart st)"
| a_reset: "reachableAnyIndex st \<Longrightarrow> reachableAnyIndex (handleReset st)"
| a_mode: "reachableAnyIndex st \<Longrightarrow> reachableAnyIndex (modeChange st val)"
| a_computer: "reachableAnyIndex st \<Longrightarrow> computerTurn st \<Longrightarrow> reachableAnyIndex (computerMove st)"

text \<open>The number of cells holding a symbol.\<close>

definition countOf :: "player \<Rightarrow> board \<Rightarrow> nat" where
  "countOf p sq = length (filter (\<lambda>c. c = Mark p) sq)"

text \<open>The derived status of a board, as section 3 of the specification has it.\<close>

definition isTerminal :: "board \<Rightarrow> bool" where
  "isTerminal sq = (fst (calculateWinner sq) \<noteq> None \<or> isDraw sq)"

text \<open>A state is settled when the game-over effect has run for its board.\<close>

definition settled :: "game \<Rightarrow> bool" where
  "settled st =
     (status st =
        (if fst (calculateWinner (squares st)) \<noteq> None then Win
         else if isDraw (squares st) then Draw else Ongoing))"

text \<open>The sum of the three counters, and a run of moves within one game.\<close>

definition tallySum :: "tally \<Rightarrow> nat" where
  "tallySum t = scoreX t + scoreO t + scoreD t"

fun applyMoves :: "game \<Rightarrow> (int \<times> bool) list \<Rightarrow> game" where
  "applyMoves st [] = st"
| "applyMoves st ((i, isAI) # ms) = applyMoves (applyMove st i isAI) ms"

text \<open>The invariant of the reachable states: a board of the data model, a settled status,
  and as many X as O when X is to move, one more when O is.\<close>

definition balanced :: "game \<Rightarrow> bool" where
  "balanced st =
     (validBoard (squares st) \<and> settled st
      \<and> countOf PX (squares st) = countOf PO (squares st) + (if xIsNext st then 0 else 1))"

text \<open>The indices that the loops of the engine select (\<^verbatim>\<open>i < 9\<close> and
  \<^verbatim>\<open>!board[i]\<close>): the legal moves of the specification.\<close>

definition legalMoves :: "board \<Rightarrow> nat set" where
  "legalMoves b = {i. i < 9 \<and> \<not> truthy (get b i)}"

section \<open>Games against the engine\<close>

text \<open>
  A game starts from the empty board with X to move. The symbols for which \<open>engine\<close>
  holds are played by \<^verbatim>\<open>computeAIMove\<close>, whose result is written to the board as
  \<^verbatim>\<open>handleSquareClick\<close> writes it; the other symbols may take any empty cell. Nobody
  moves on a terminal board. \<open>human p\<close> is the symbol other than \<open>p\<close>.
\<close>

inductive play :: "(player \<Rightarrow> bool) \<Rightarrow> board \<Rightarrow> player \<Rightarrow> bool"
  for engine :: "player \<Rightarrow> bool" where
  p_start: "play engine emptyBoard PX"
| p_engine: "play engine b p \<Longrightarrow> \<not> isTerminal b \<Longrightarrow> engine p \<Longrightarrow>
             play engine (setAt b (computeAIMove b p) (Mark p)) (human p)"
| p_free: "play engine b p \<Longrightarrow> \<not> isTerminal b \<Longrightarrow> \<not> engine p \<Longrightarrow> i \<in> legalMoves b \<Longrightarrow>
           play engine (put b i (Mark p)) (human p)"

text \<open>The game in which the engine plays both symbols, for at most \<open>n\<close> moves.\<close>

fun selfPlay :: "nat \<Rightarrow> board \<Rightarrow> player \<Rightarrow> board" where
  "selfPlay 0 b p = b"
| "selfPlay (Suc n) b p =
     (if isTerminal b then b
      else selfPlay n (setAt b (computeAIMove b p) (Mark p)) (human p))"

text \<open>The computer holds out on a board when its score there is not negative.\<close>

definition holdsOut :: "player \<Rightarrow> board \<Rightarrow> bool \<Rightarrow> bool" where
  "holdsOut ai b t = (Fin 0 \<le> minimax ai b 0 t)"

text \<open>
  A bounded search with early exit that decides whether the computer can avoid losing:
  some move of the computer, or every move of the opponent, must lead to a board where
  the search succeeds again. It looks at the computer's moves centre first.
\<close>

fun anyMove :: "(nat \<Rightarrow> bool) \<Rightarrow> nat list \<Rightarrow> bool" where
  "anyMove f [] = False"
| "anyMove f (i # is) = (if f i then True else anyMove f is)"

fun allMoves :: "(nat \<Rightarrow> bool) \<Rightarrow> nat list \<Rightarrow> bool" where
  "allMoves f [] = True"
| "allMoves f (i # is) = (if f i then allMoves f is else False)"

definition tryOrder :: "nat list" where
  "tryOrder = [4, 0, 2, 6, 8, 1, 3, 5, 7]"

definition allCells :: "nat list" where
  "allCells = [0, 1, 2, 3, 4, 5, 6, 7, 8]"

fun holds :: "nat \<Rightarrow> player \<Rightarrow> board \<Rightarrow> bool \<Rightarrow> bool" where
  "holds 0 ai b t = False"
| "holds (Suc n) ai b t =
     (let w = fst (calculateWinner b) in
      if w = Some ai then True
      else if w = Some (human ai) then False
      else if every b then True
      else if t
        then anyMove (\<lambda>i. if truthy (get b i) then False
                          else holds n ai (put b i (Mark ai)) False)
               tryOrder
        else allMoves (\<lambda>i. if truthy (get b i) then True
                           else holds n ai (put b i (Mark (human ai))) True)
               allCells)"

section \<open>Example boards\<close>

text \<open>A board that alternating play cannot reach: the middle row holds X and the bottom
  row holds O.\<close>

definition rowBoard :: board where
  "rowBoard = [Mark PO, Null, Mark PO, Mark PX, Mark PX, Mark PX, Mark PO, Mark PO, Mark PO]"

text \<open>A board with one empty cell, where X completes a diagonal.\<close>

definition nearBoard :: board where
  "nearBoard = [Mark PX, Mark PO, Mark PX, Mark PO, Mark PX, Mark PO, Mark PO, Mark PX, Null]"

text \<open>The board of the specification's example for the engine: X holds 0 and 1, O holds
  3 and 4.\<close>

definition blockBoard :: board where
  "blockBoard = [Mark PX, Mark PX, Null, Mark PO, Mark PO, Null, Null, Null, Null]"

text \<open>The full board of the specification's draw example.\<close>

definition drawBoard :: board where
  "drawBoard = [Mark PX, Mark PO, Mark PX, Mark PO, Mark PX, Mark PO, Mark PO, Mark PX, Mark PO]"

text \<open>The board after X has taken the centre.\<close>

definition centreBoard :: board where
  "centreBoard = put emptyBoard 4 (Mark PX)"

text \<open>A state in which the computer is to move, and one in which X wins by playing 2.\<close>

definition computerToMove :: game where
  "computerToMove =
     \<lparr>mode = Ai, squares = put emptyBoard 4 (Mark PX), xIsNext = False, status = Ongoing,
      score = \<lparr>scoreX = 0, scoreO = 0, scoreD = 0\<rparr>\<rparr>"

definition xWinsNext :: game where
  "xWinsNext =
     \<lparr>mode = Pvp, squares = blockBoard, xIsNext = True, status = Ongoing,
      score = \<lparr>scoreX = 0, scoreO = 0, scoreD = 0\<rparr>\<rparr>"

section \<open>The winner query\<close>

lemma truthy_iff: "truthy c \<longleftrightarrow> (\<exists>p. c = Mark p)"
  by (cases c) auto

lemma scanLines_none:
  "(\<forall>l \<in> set ls. \<not> lineWon sq l) \<Longrightarrow> scanLines sq ls = (None, None)"
  by (induction sq ls rule: scanLines.induct) auto

lemma scanLines_first:
  "k < length ls \<Longrightarrow> lineWon sq (ls ! k) \<Longrightarrow> (\<forall>j < k. \<not> lineWon sq (ls ! j)) \<Longrightarrow>
   \<exists>p. scanLines sq ls = (Some p, Some (ls ! k))"
proof (induction sq ls arbitrary: k rule: scanLines.induct)
  case (1 sq)
  then show ?case by simp
next
  case (2 sq a b c ls)
  show ?case
  proof (cases k)
    case 0
    with 2(3) have w: "lineWon sq (a, b, c)" by (simp del: lineWon.simps)
    then obtain p where "get sq a = Mark p" by (auto simp: truthy_iff)
    with w 0 show ?thesis by (simp del: lineWon.simps)
  next
    case (Suc k')
    with 2(4) have nw: "\<not> lineWon sq (a, b, c)" by (auto simp del: lineWon.simps)
    from 2(2,3,4) Suc have "\<exists>p. scanLines sq ls = (Some p, Some (ls ! k'))"
      by (intro 2(1) [OF nw]) auto
    with nw Suc show ?thesis by (simp del: lineWon.simps)
  qed
qed

lemma scanLines_sound:
  "scanLines sq ls = (Some p, Some (a, b, c)) \<Longrightarrow>
   (a, b, c) \<in> set ls \<and> get sq a = Mark p \<and> get sq b = Mark p \<and> get sq c = Mark p"
  by (induction sq ls rule: scanLines.induct) (auto split: if_splits cell.splits)

text \<open>
  Claim C5. The winner query scans the eight lines in the order rows, columns, diagonals.
  If no line has three equal non-empty cells the result is \<open>(None, None)\<close>; otherwise the
  result is the first such line in that order, with a player; and whenever the result is a
  player with a line, the line is one of the eight and the player holds its three cells.
  This holds for every board, reachable or not.
\<close>

theorem calculateWinner_first_line:
  "lines = [(0, 1, 2), (3, 4, 5), (6, 7, 8), (0, 3, 6), (1, 4, 7), (2, 5, 8), (0, 4, 8), (2, 4, 6)]
   \<and> ((\<forall>l \<in> set lines. \<not> lineWon sq l) \<longrightarrow> calculateWinner sq = (None, None))
   \<and> (\<forall>k < length lines.
        lineWon sq (lines ! k) \<and> (\<forall>j < k. \<not> lineWon sq (lines ! j)) \<longrightarrow>
        (\<exists>p. calculateWinner sq = (Some p, Some (lines ! k))))
   \<and> (\<forall>p a b c.
        calculateWinner sq = (Some p, Some (a, b, c)) \<longrightarrow>
        (a, b, c) \<in> set lines \<and> get sq a = Mark p \<and> get sq b = Mark p \<and> get sq c = Mark p)"
proof (intro conjI allI impI)
  show "lines = [(0, 1, 2), (3, 4, 5), (6, 7, 8), (0, 3, 6), (1, 4, 7), (2, 5, 8), (0, 4, 8), (2, 4, 6)]"
    by (simp add: lines_def)
next
  assume "\<forall>l \<in> set lines. \<not> lineWon sq l"
  then show "calculateWinner sq = (None, None)"
    unfolding calculateWinner_def by (rule scanLines_none)
next
  fix k
  assume "k < length lines" and "lineWon sq (lines ! k) \<and> (\<forall>j < k. \<not> lineWon sq (lines ! j))"
  then show "\<exists>p. calculateWinner sq = (Some p, Some (lines ! k))"
    unfolding calculateWinner_def by (intro scanLines_first) blast+
next
  fix p a b c
  assume "calculateWinner sq = (Some p, Some (a, b, c))"
  then have *: "(a, b, c) \<in> set lines \<and> get sq a = Mark p \<and> get sq b = Mark p \<and> get sq c = Mark p"
    unfolding calculateWinner_def by (rule scanLines_sound)
  then show "(a, b, c) \<in> set lines" "get sq a = Mark p" "get sq b = Mark p" "get sq c = Mark p"
    by blast+
qed

theorem calculateWinner_first_line_witness:
  "calculateWinner rowBoard = (Some PX, Some (3, 4, 5)) \<and> (3, 4, 5) \<in> set lines
   \<and> get rowBoard 3 = Mark PX  \<and> get rowBoard 4 = Mark PX  \<and> get rowBoard 5 = Mark PX"
proof -
  have c: "calculateWinner rowBoard = (Some PX, Some (3, 4, 5))"
    by (simp add: calculateWinner_def lines_def rowBoard_def get_def)
  with calculateWinner_first_line [of rowBoard] show ?thesis by blast
qed

section \<open>Numbers, folds and legal moves\<close>

lemma NegInf_least [simp]: "NegInf \<le> (x :: number)"
  by (simp add: less_eq_number_def)

lemma PosInf_greatest [simp]: "(x :: number) \<le> PosInf"
  by (cases x) (simp_all add: less_eq_number_def)

lemma Fin_le [simp]: "Fin a \<le> Fin b \<longleftrightarrow> a \<le> b"
  by (simp add: less_eq_number_def)

lemma Fin_less [simp]: "Fin a < Fin b \<longleftrightarrow> a < b"
  by (auto simp add: less_number_def)

lemma NegInf_less_Fin [simp]: "NegInf < Fin a"
  by (simp add: less_number_def)

lemma Max_insert2: "finite S \<Longrightarrow> Max (insert a (insert b S)) = Max (insert (max a b) (S :: number set))"
  by (cases "S = {}") (simp_all add: max.assoc)

lemma Min_insert2: "finite S \<Longrightarrow> Min (insert a (insert b S)) = Min (insert (min a b) (S :: number set))"
  by (cases "S = {}") (simp_all add: min.assoc)

lemma fold_max:
  "fold (\<lambda>i best. if P i then max best (f i) else best) xs (a :: number)
     = Max (insert a (f ` {i \<in> set xs. P i}))"
proof (induction xs arbitrary: a)
  case Nil
  then show ?case by simp
next
  case (Cons x xs)
  let ?S = "f ` {i \<in> set xs. P i}"
  have fin: "finite ?S" by simp
  show ?case
  proof (cases "P x")
    case True
    have "{i \<in> set (x # xs). P i} = insert x {i \<in> set xs. P i}"
      using True by auto
    then have "Max (insert a (f ` {i \<in> set (x # xs). P i})) = Max (insert a (insert (f x) ?S))"
      by simp
    also have "\<dots> = Max (insert (max a (f x)) ?S)"
      using fin by (rule Max_insert2)
    finally show ?thesis using True Cons.IH [of "max a (f x)"] by simp
  next
    case False
    have "{i \<in> set (x # xs). P i} = {i \<in> set xs. P i}"
      using False by auto
    then show ?thesis using False Cons.IH [of a] by simp
  qed
qed

lemma fold_min:
  "fold (\<lambda>i best. if P i then min best (f i) else best) xs (a :: number)
     = Min (insert a (f ` {i \<in> set xs. P i}))"
proof (induction xs arbitrary: a)
  case Nil
  then show ?case by simp
next
  case (Cons x xs)
  let ?S = "f ` {i \<in> set xs. P i}"
  have fin: "finite ?S" by simp
  show ?case
  proof (cases "P x")
    case True
    have "{i \<in> set (x # xs). P i} = insert x {i \<in> set xs. P i}"
      using True by auto
    then have "Min (insert a (f ` {i \<in> set (x # xs). P i})) = Min (insert a (insert (f x) ?S))"
      by simp
    also have "\<dots> = Min (insert (min a (f x)) ?S)"
      using fin by (rule Min_insert2)
    finally show ?thesis using True Cons.IH [of "min a (f x)"] by simp
  next
    case False
    have "{i \<in> set (x # xs). P i} = {i \<in> set xs. P i}"
      using False by auto
    then show ?thesis using False Cons.IH [of a] by simp
  qed
qed

lemma legalMoves_set: "{i \<in> set [0..<9]. \<not> truthy (get b i)} = legalMoves b"
  by (auto simp: legalMoves_def)

lemma finite_legalMoves [simp]: "finite (legalMoves b)"
  by (simp add: legalMoves_def)

lemma valid_put: "validBoard b \<Longrightarrow> i < 9 \<Longrightarrow> validBoard (put b i (Mark p))"
  using set_update_subset_insert [of b i "Mark p"] by (auto simp: validBoard_def put_def list_all_iff)

lemma valid_get: "validBoard b \<Longrightarrow> i < 9 \<Longrightarrow> get b i \<noteq> Hole"
  by (auto simp: validBoard_def get_def list_all_iff)

lemma valid_every: "validBoard b \<Longrightarrow> every b \<longleftrightarrow> legalMoves b = {}"
proof
  assume w: "validBoard b" and e: "every b"
  show "legalMoves b = {}"
  proof (rule ccontr)
    assume "legalMoves b \<noteq> {}"
    then obtain i where i: "i < 9" "\<not> truthy (get b i)" by (auto simp: legalMoves_def)
    with w have "get b i = Null" using valid_get [of b i] by (cases "get b i") auto
    with i w have "Null \<in> set b" using nth_mem [of i b] by (auto simp: get_def validBoard_def)
    with e show False by (auto simp: every_def list_all_iff)
  qed
next
  assume w: "validBoard b" and l: "legalMoves b = {}"
  show "every b"
    unfolding every_def list_all_iff
  proof
    fix c assume "c \<in> set b"
    then obtain i where "i < length b" "b ! i = c" by (auto simp: in_set_conv_nth)
    with w l show "c \<noteq> Null" by (auto simp: legalMoves_def validBoard_def get_def)
  qed
qed

lemma minimax_won: "fst (calculateWinner b) = Some ai \<Longrightarrow> minimax ai b d t = Fin (10 - d)"
  by (simp add: minimax.simps)

lemma minimax_lost:
  "fst (calculateWinner b) \<noteq> Some ai \<Longrightarrow> fst (calculateWinner b) = Some (human ai) \<Longrightarrow>
   minimax ai b d t = Fin (d - 10)"
  by (simp add: minimax.simps)

lemma minimax_full:
  "fst (calculateWinner b) \<noteq> Some ai \<Longrightarrow> fst (calculateWinner b) \<noteq> Some (human ai) \<Longrightarrow>
   every b \<Longrightarrow> minimax ai b d t = Fin 0"
  by (simp add: minimax.simps)

lemma minimax_max:
  assumes "fst (calculateWinner b) \<noteq> Some ai" "fst (calculateWinner b) \<noteq> Some (human ai)"
    and "\<not> every b" "legalMoves b \<noteq> {}"
  shows "minimax ai b d True = Max ((\<lambda>i. minimax ai (put b i (Mark ai)) (d + 1) False) ` legalMoves b)"
proof -
  let ?f = "\<lambda>i. minimax ai (put b i (Mark ai)) (d + 1) False"
  have "minimax ai b d True = fold (\<lambda>i best. if \<not> truthy (get b i) then max best (?f i) else best) [0..<9] NegInf"
    using assms(1-3) by (subst minimax.simps) (simp add: Let_def cong: if_cong)
  also have "\<dots> = Max (insert NegInf (?f ` legalMoves b))"
    by (simp only: fold_max legalMoves_set)
  also have "\<dots> = Max (?f ` legalMoves b)"
    using assms(4) by (simp add: max_absorb2)
  finally show ?thesis .
qed

lemma minimax_min:
  assumes "fst (calculateWinner b) \<noteq> Some ai" "fst (calculateWinner b) \<noteq> Some (human ai)"
    and "\<not> every b" "legalMoves b \<noteq> {}"
  shows "minimax ai b d False = Min ((\<lambda>i. minimax ai (put b i (Mark (human ai))) (d + 1) True) ` legalMoves b)"
proof -
  let ?f = "\<lambda>i. minimax ai (put b i (Mark (human ai))) (d + 1) True"
  have "minimax ai b d False = fold (\<lambda>i best. if \<not> truthy (get b i) then min best (?f i) else best) [0..<9] PosInf"
    using assms(1-3) by (subst minimax.simps) (simp add: Let_def cong: if_cong)
  also have "\<dots> = Min (insert PosInf (?f ` legalMoves b))"
    by (simp only: fold_min legalMoves_set)
  also have "\<dots> = Min (?f ` legalMoves b)"
    using assms(4) by (simp add: min_absorb2)
  finally show ?thesis .
qed

lemma legalMoves_code: "legalMoves b = set (filter (\<lambda>i. \<not> truthy (get b i)) [0..<9])"
  by (auto simp: legalMoves_def)

text \<open>
  Claim C4. On a board of the data model, the score is \<open>10 - depth\<close> when the winner is
  the computer's symbol, otherwise \<open>depth - 10\<close> when it is the human's, otherwise \<open>0\<close>
  when no cell is empty, and otherwise the greatest (when maximizing) or the least (when
  not) of the scores of the boards with the mover's symbol placed on an empty cell, one
  level deeper and with the flag flipped.
\<close>

theorem minimax_characterisation:
  "validBoard b \<Longrightarrow>
   minimax ai b d isMax =
     (if fst (calculateWinner b) = Some ai then Fin (10 - d)
      else if fst (calculateWinner b) = Some (human ai) then Fin (d - 10)
      else if legalMoves b = {} then Fin 0
      else if isMax
        then Max ((\<lambda>i. minimax ai (put b i (Mark ai)) (d + 1) False) ` legalMoves b)
        else Min ((\<lambda>i. minimax ai (put b i (Mark (human ai))) (d + 1) True) ` legalMoves b))"
  using minimax_won [of b ai d isMax] minimax_lost [of b ai d isMax] minimax_full [of b ai d isMax]
    minimax_max [of b ai d] minimax_min [of b ai d] valid_every [of b]
  by (cases isMax) simp_all

theorem minimax_characterisation_witness:
  "validBoard nearBoard \<and> minimax PX nearBoard 0 True = Fin 9"
proof -
  have w: "validBoard nearBoard" by (simp add: validBoard_def nearBoard_def)
  have l: "legalMoves nearBoard = {8}"
    unfolding legalMoves_code by code_simp
  have c: "fst (calculateWinner nearBoard) = None" by code_simp
  have m: "minimax PX (put nearBoard 8 (Mark PX)) 1 False = Fin 9" by code_simp
  show ?thesis
    using minimax_characterisation [OF w, of PX 0 True] w
    by (simp add: l c m human_def)
qed

section \<open>The move the engine returns\<close>

lemma legalMoves_put:
  "i \<in> legalMoves b \<Longrightarrow> empties (put b i (Mark p)) < empties b"
  by (simp add: legalMoves_def empties_put)

lemma minimax_finite: "validBoard b \<Longrightarrow> \<exists>v. minimax ai b d t = Fin v"
proof (induction "empties b" arbitrary: b d t rule: less_induct)
  case less
  let ?w = "fst (calculateWinner b)"
  consider (won) "?w = Some ai" | (lost) "?w \<noteq> Some ai" "?w = Some (human ai)"
    | (full) "?w \<noteq> Some ai" "?w \<noteq> Some (human ai)" "every b"
    | (unfinished) "?w \<noteq> Some ai" "?w \<noteq> Some (human ai)" "\<not> every b"
    by blast
  then show ?case
  proof cases
    case won
    then show ?thesis by (simp add: minimax_won)
  next
    case lost
    then show ?thesis by (simp add: minimax_lost)
  next
    case full
    then show ?thesis by (simp add: minimax_full)
  next
    case unfinished
    with less.prems have ne: "legalMoves b \<noteq> {}" by (simp add: valid_every)
    have sub: "\<exists>v. minimax ai (put b i (Mark p)) d' t' = Fin v" if "i \<in> legalMoves b" for i p d' t'
      using that less.prems by (intro less.hyps legalMoves_put valid_put) (auto simp: legalMoves_def)
    show ?thesis
    proof (cases t)
      case True
      let ?S = "(\<lambda>i. minimax ai (put b i (Mark ai)) (d + 1) False) ` legalMoves b"
      have "Max ?S \<in> ?S" using ne by (intro Max_in) auto
      then show ?thesis using sub True minimax_max [OF unfinished ne, of d] by auto
    next
      case False
      let ?S = "(\<lambda>i. minimax ai (put b i (Mark (human ai))) (d + 1) True) ` legalMoves b"
      have "Min ?S \<in> ?S" using ne by (intro Min_in) auto
      then show ?thesis using sub False minimax_min [OF unfinished ne, of d] by auto
    qed
  qed
qed

lemma argmax_fold:
  fixes sc :: "nat \<Rightarrow> number"
  assumes fin: "\<forall>j < n. P j \<longrightarrow> NegInf < sc j"
    and r: "fold (\<lambda>i (bestScore, move).
                 if P i then (if bestScore < sc i then (sc i, int i) else (bestScore, move))
                 else (bestScore, move)) [0..<n] (NegInf, -1) = (bs, mv)"
  shows "((\<forall>j < n. \<not> P j) \<and> bs = NegInf \<and> mv = -1)
       \<or> (0 \<le> mv \<and> nat mv < n \<and> P (nat mv) \<and> bs = sc (nat mv)
            \<and> (\<forall>j < n. P j \<longrightarrow> sc j \<le> bs)
            \<and> (\<forall>j < nat mv. P j \<longrightarrow> sc j < bs))"
  using fin r
proof (induction n arbitrary: bs mv)
  case 0
  then show ?case by simp
next
  case (Suc n)
  let ?step = "\<lambda>i (bestScore, move).
                 if P i then (if bestScore < sc i then (sc i, int i) else (bestScore, move))
                 else (bestScore, move)"
  obtain bs0 mv0 where r0: "fold ?step [0..<n] (NegInf, -1) = (bs0, mv0)"
    by (cases "fold ?step [0..<n] (NegInf, -1)")
  have ih: "((\<forall>j < n. \<not> P j) \<and> bs0 = NegInf \<and> mv0 = -1)
       \<or> (0 \<le> mv0 \<and> nat mv0 < n \<and> P (nat mv0) \<and> bs0 = sc (nat mv0)
            \<and> (\<forall>j < n. P j \<longrightarrow> sc j \<le> bs0)
            \<and> (\<forall>j < nat mv0. P j \<longrightarrow> sc j < bs0))"
    using Suc.prems(1) by (intro Suc.IH [OF _ r0]) simp
  have f: "?step n (bs0, mv0) = (bs, mv)"
    using Suc.prems(2) r0 by simp
  show ?case
  proof (cases "P n")
    case False
    with f have e: "bs = bs0" "mv = mv0" by simp_all
    from ih show ?thesis
    proof
      assume "(\<forall>j < n. \<not> P j) \<and> bs0 = NegInf \<and> mv0 = -1"
      with False e have "(\<forall>j < Suc n. \<not> P j) \<and> bs = NegInf \<and> mv = -1"
        by (simp add: less_Suc_eq)
      then show ?thesis ..
    next
      assume a: "0 \<le> mv0 \<and> nat mv0 < n \<and> P (nat mv0) \<and> bs0 = sc (nat mv0)
            \<and> (\<forall>j < n. P j \<longrightarrow> sc j \<le> bs0)
            \<and> (\<forall>j < nat mv0. P j \<longrightarrow> sc j < bs0)"
      with False have "\<forall>j < Suc n. P j \<longrightarrow> sc j \<le> bs0"
        by (auto simp: less_Suc_eq)
      with a e show ?thesis by auto
    qed
  next
    case True
    with Suc.prems(1) have pos: "NegInf < sc n" by simp
    show ?thesis
    proof (cases "bs0 < sc n")
      case better: True
      with f True have e: "bs = sc n" "mv = int n" by simp_all
      have lt: "\<forall>j < n. P j \<longrightarrow> sc j < sc n"
        using ih better by auto
      then have "\<forall>j < Suc n. P j \<longrightarrow> sc j \<le> sc n"
        by (auto simp: less_Suc_eq)
      with lt True e show ?thesis by simp
    next
      case notbetter: False
      with f True have e: "bs = bs0" "mv = mv0" by simp_all
      from notbetter have le: "sc n \<le> bs0" by simp
      from ih show ?thesis
      proof
        assume "(\<forall>j < n. \<not> P j) \<and> bs0 = NegInf \<and> mv0 = -1"
        with notbetter pos show ?thesis by simp
      next
        assume a: "0 \<le> mv0 \<and> nat mv0 < n \<and> P (nat mv0) \<and> bs0 = sc (nat mv0)
            \<and> (\<forall>j < n. P j \<longrightarrow> sc j \<le> bs0)
            \<and> (\<forall>j < nat mv0. P j \<longrightarrow> sc j < bs0)"
        with le have "\<forall>j < Suc n. P j \<longrightarrow> sc j \<le> bs0"
          by (auto simp: less_Suc_eq)
        with a e show ?thesis by auto
      qed
    qed
  qed
qed

lemma computeAIMove_fold:
  "computeAIMove sq ai =
     (case fold (\<lambda>i (bestScore, move).
                 if \<not> truthy (get sq i)
                 then (if bestScore < minimax ai (put sq i (Mark ai)) 0 False
                       then (minimax ai (put sq i (Mark ai)) 0 False, int i)
                       else (bestScore, move))
                 else (bestScore, move)) [0..<9] (NegInf, -1) of
        (bestScore, move) \<Rightarrow> if move = -1 then findIndex (\<lambda>v. \<not> truthy v) sq else move)"
  unfolding computeAIMove_def Let_def ..

lemma computeAIMove_best:
  assumes v: "validBoard b" and ne: "legalMoves b \<noteq> {}"
  shows "0 \<le> computeAIMove b ai \<and> nat (computeAIMove b ai) \<in> legalMoves b
    \<and> (\<forall>j \<in> legalMoves b. minimax ai (put b j (Mark ai)) 0 False
           \<le> minimax ai (put b (nat (computeAIMove b ai)) (Mark ai)) 0 False)
    \<and> (\<forall>j \<in> legalMoves b. j < nat (computeAIMove b ai) \<longrightarrow>
           minimax ai (put b j (Mark ai)) 0 False
           < minimax ai (put b (nat (computeAIMove b ai)) (Mark ai)) 0 False)"
proof -
  let ?sc = "\<lambda>i. minimax ai (put b i (Mark ai)) 0 False"
  let ?P = "\<lambda>i. \<not> truthy (get b i)"
  let ?step = "\<lambda>i (bestScore, move).
                 if ?P i then (if bestScore < ?sc i then (?sc i, int i) else (bestScore, move))
                 else (bestScore, move)"
  have fin: "\<forall>j < 9. ?P j \<longrightarrow> NegInf < ?sc j"
  proof (intro allI impI)
    fix j assume "j < (9::nat)" "?P j"
    then obtain x where "?sc j = Fin x"
      using minimax_finite [OF valid_put [OF v], of j ai ai 0 False] by auto
    then show "NegInf < ?sc j" by simp
  qed
  obtain bs mv where r: "fold ?step [0..<9] (NegInf, -1) = (bs, mv)"
    by (cases "fold ?step [0..<9] (NegInf, -1)")
  from ne have ex: "\<not> (\<forall>j < 9. \<not> ?P j)" by (auto simp: legalMoves_def)
  from argmax_fold [of 9 ?P ?sc, OF fin r] ex
  have p: "0 \<le> mv" "nat mv < 9" "?P (nat mv)" "bs = ?sc (nat mv)"
    "\<forall>j < 9. ?P j \<longrightarrow> ?sc j \<le> bs" "\<forall>j < nat mv. ?P j \<longrightarrow> ?sc j < bs"
    by (auto split: if_splits)
  have m: "computeAIMove b ai = mv"
    using r p(1) unfolding computeAIMove_fold by simp
  show ?thesis unfolding m using p by (auto simp: legalMoves_def)
qed

lemma valid_legal_Null: "validBoard b \<Longrightarrow> i \<in> legalMoves b \<Longrightarrow> get b i = Null"
  using valid_get [of b i] by (cases "get b i") (auto simp: legalMoves_def)

lemma valid_blockBoard: "validBoard blockBoard"
  by (simp add: validBoard_def blockBoard_def)

lemma legal_blockBoard: "legalMoves blockBoard = {2, 5, 6, 7, 8}"
  unfolding legalMoves_code by code_simp

text \<open>
  Claim C3. On a board of the data model with at least one empty cell, and for either
  symbol, the engine returns an index of an empty cell whose score (the minimax score of
  the board with the computer's symbol placed there, at depth 0 with the opponent to move)
  is the greatest among the empty cells, and every empty cell with a lower index has a
  strictly smaller score: it is the first in ascending order with the greatest score. The
  engine is a function of the board and the symbol, so equal inputs give equal moves.
\<close>

theorem computeAIMove_first_best:
  "validBoard b \<Longrightarrow> legalMoves b \<noteq> {} \<Longrightarrow>
   0 \<le> computeAIMove b ai \<and> nat (computeAIMove b ai) \<in> legalMoves b
    \<and> get b (nat (computeAIMove b ai)) = Null
    \<and> (\<forall>j \<in> legalMoves b. minimax ai (put b j (Mark ai)) 0 False
           \<le> minimax ai (put b (nat (computeAIMove b ai)) (Mark ai)) 0 False)
    \<and> (\<forall>j \<in> legalMoves b. j < nat (computeAIMove b ai) \<longrightarrow>
           minimax ai (put b j (Mark ai)) 0 False
           < minimax ai (put b (nat (computeAIMove b ai)) (Mark ai)) 0 False)"
  using computeAIMove_best [of b ai] valid_legal_Null [of b "nat (computeAIMove b ai)"]
  by blast

theorem computeAIMove_first_best_witness:
  "validBoard blockBoard \<and> legalMoves blockBoard \<noteq> {}
   \<and> 0 \<le> computeAIMove blockBoard PO
   \<and> nat (computeAIMove blockBoard PO) \<in> legalMoves blockBoard
   \<and> get blockBoard (nat (computeAIMove blockBoard PO)) = Null"
proof -
  have ne: "legalMoves blockBoard \<noteq> {}" by (simp add: legal_blockBoard)
  from computeAIMove_first_best [OF valid_blockBoard ne, of PO] valid_blockBoard ne
  show ?thesis by blast
qed

lemma blockBoard_move: "computeAIMove blockBoard PO = 5"
  by code_simp

text \<open>
  Claim C2 says that the engine, playing O on the board with X on 0 and 1 and O on 3 and 4,
  returns index 2. It does not: index 5 completes O's row 3, 4, 5 and scores 10, more than
  any other move.
\<close>

theorem computeAIMove_block_counterexample: "computeAIMove blockBoard PO \<noteq> 2"
  by (simp add: blockBoard_move)

text \<open>
  Claim C2, amended. On that board the engine playing O returns index 5, and placing O there
  wins the game on the line 3, 4, 5.
\<close>

theorem computeAIMove_block_takes_win:
  "computeAIMove blockBoard PO = 5
   \<and> calculateWinner (put blockBoard 5 (Mark PO)) = (Some PO, Some (3, 4, 5))"
proof
  show "computeAIMove blockBoard PO = 5" by (rule blockBoard_move)
  show "calculateWinner (put blockBoard 5 (Mark PO)) = (Some PO, Some (3, 4, 5))"
    by code_simp
qed

lemma fold_skip:
  "\<forall>i \<in> set xs. truthy (get b i) \<Longrightarrow>
   fold (\<lambda>i (bestScore, move).
           if \<not> truthy (get b i)
           then (if bestScore < minimax ai (put b i (Mark ai)) 0 False
                 then (minimax ai (put b i (Mark ai)) 0 False, int i)
                 else (bestScore, move))
           else (bestScore, move)) xs s = s"
  by (induction xs arbitrary: s) (auto split: prod.splits)

lemma findIndexFrom_none: "\<forall>v \<in> set vs. \<not> P v \<Longrightarrow> findIndexFrom P vs k = -1"
  by (induction vs arbitrary: k) auto

text \<open>
  Claim C10. On a board of nine cells none of which is empty, the loop of the engine finds
  no move and \<^verbatim>\<open>findIndex\<close> finds no falsy element, so the engine returns \<open>-1\<close>.
\<close>

theorem computeAIMove_full_board:
  "length b = 9 \<Longrightarrow> list_all truthy b \<Longrightarrow> computeAIMove b ai = -1"
proof -
  assume len: "length b = 9" and full: "list_all truthy b"
  have "\<forall>i \<in> set [0..<9]. truthy (get b i)"
    using len full by (auto simp: get_def list_all_iff)
  then have f: "fold (\<lambda>i (bestScore, move).
           if \<not> truthy (get b i)
           then (if bestScore < minimax ai (put b i (Mark ai)) 0 False
                 then (minimax ai (put b i (Mark ai)) 0 False, int i)
                 else (bestScore, move))
           else (bestScore, move)) [0..<9] (NegInf, -1) = (NegInf, -1)"
    by (rule fold_skip)
  have "findIndex (\<lambda>v. \<not> truthy v) b = -1"
    unfolding findIndex_def using full by (intro findIndexFrom_none) (simp add: list_all_iff)
  then show ?thesis
    unfolding computeAIMove_fold f by simp
qed

theorem computeAIMove_full_board_witness:
  "length drawBoard = 9 \<and> list_all truthy drawBoard \<and> computeAIMove drawBoard PO = -1"
proof -
  have l: "length drawBoard = 9" by (simp add: drawBoard_def)
  have t: "list_all truthy drawBoard" by (simp add: drawBoard_def)
  from computeAIMove_full_board [OF l t, of PO] l t show ?thesis by simp
qed

section \<open>Restart and mode change\<close>

lemma winner_emptyBoard: "calculateWinner emptyBoard = (None, None)"
  by (simp add: calculateWinner_def lines_def emptyBoard_def get_def numeral_eq_Suc)

lemma isDraw_emptyBoard: "\<not> isDraw emptyBoard"
  by (simp add: isDraw_def every_def emptyBoard_def numeral_eq_Suc)

lemma restart_eq: "restart st = st\<lparr>squares := emptyBoard, xIsNext := True, status := Ongoing\<rparr>"
  by (simp add: restart_def handleRestart_def gameOverEffect_def winner_emptyBoard isDraw_emptyBoard)

lemma modeChange_eq:
  "modeChange st val = st\<lparr>mode := val, squares := emptyBoard, xIsNext := True, status := Ongoing\<rparr>"
  by (simp add: modeChange_def handleModeChange_def handleRestart_def gameOverEffect_def
      winner_emptyBoard isDraw_emptyBoard)

text \<open>
  Claim C8. From any state, restart makes the board nine empty cells, makes X the active
  player and makes the status ongoing (the game-over effect sets it for the new board),
  and changes neither the three counters nor the mode; changing the mode gives the state
  that restart gives, with the new mode.
\<close>

theorem restart_resets:
  "restart st = st\<lparr>squares := emptyBoard, xIsNext := True, status := Ongoing\<rparr>
   \<and> squares (restart st) = replicate 9 Null
   \<and> xIsNext (restart st)
   \<and> status (restart st) = Ongoing
   \<and> score (restart st) = score st
   \<and> mode (restart st) = mode st
   \<and> modeChange st val = (restart st)\<lparr>mode := val\<rparr>
   \<and> mode (modeChange st val) = val"
proof -
  have "squares (restart st) = replicate 9 Null"
    by (simp add: restart_eq emptyBoard_def)
  then show ?thesis
    by (simp add: restart_eq modeChange_eq)
qed

section \<open>Moves that are ignored\<close>

lemma applyMove_blocked:
  assumes s: "settled st"
    and b: "isTerminal (squares st) \<or> truthy (cellAt (squares st) i)
            \<or> (mode st = Ai \<and> \<not> xIsNext st \<and> \<not> isAI)"
  shows "applyMove st i isAI = st"
proof -
  have "handleSquareClick st i isAI = None"
  proof (cases "fst (calculateWinner (squares st)) = None")
    case False
    then show ?thesis by (simp add: handleSquareClick_def)
  next
    case True
    show ?thesis
    proof (cases "isDraw (squares st)")
      case True
      with s \<open>fst (calculateWinner (squares st)) = None\<close> have "status st = Draw"
        by (simp add: settled_def)
      then show ?thesis by (simp add: handleSquareClick_def)
    next
      case False
      with True b have "truthy (cellAt (squares st) i) \<or> (mode st = Ai \<and> \<not> xIsNext st \<and> \<not> isAI)"
        by (simp add: isTerminal_def)
      then show ?thesis by (auto simp: handleSquareClick_def)
    qed
  qed
  then show ?thesis by (simp add: applyMove_def)
qed

lemma settled_initialGame: "settled initialGame"
  by (simp add: settled_def initialGame_def winner_emptyBoard isDraw_emptyBoard)

lemma click_nine:
  "applyMove initialGame 9 False
     = initialGame\<lparr>squares := emptyBoard @ [Mark PX], xIsNext := False\<rparr>"
proof -
  have p: "setAt emptyBoard 9 (Mark PX) = emptyBoard @ [Mark PX]"
    by (simp add: setAt_def put_def emptyBoard_def)
  have w: "fst (calculateWinner (emptyBoard @ [Mark PX])) = None"
    by (simp add: calculateWinner_def lines_def emptyBoard_def get_def numeral_eq_Suc)
  have d: "\<not> isDraw (emptyBoard @ [Mark PX])"
    by (simp add: isDraw_def every_def emptyBoard_def numeral_eq_Suc)
  have c: "cellAt emptyBoard 9 = Hole"
    by (simp add: cellAt_def get_def emptyBoard_def)
  have h: "handleSquareClick initialGame 9 False
      = Some (initialGame\<lparr>squares := emptyBoard @ [Mark PX], xIsNext := False\<rparr>)"
    using p by (simp add: handleSquareClick_def initialGame_def c winner_emptyBoard)
  show ?thesis
    unfolding applyMove_def h by (simp add: gameOverEffect_def w d initialGame_def)
qed

text \<open>
  Claim C6 says that a move is ignored, among other cases, when its index is outside 0 to 8.
  The handler has no test of the range: on the initial state, which is settled and not
  terminal, a manual move at index 9 finds \<^verbatim>\<open>squares[9]\<close> undefined, appends an X to
  the board as its tenth element and passes the turn to O.
\<close>

theorem applyMove_out_of_range_counterexample:
  "settled initialGame
   \<and> \<not> isTerminal (squares initialGame)
   \<and> applyMove initialGame 9 False
       = initialGame\<lparr>squares := emptyBoard @ [Mark PX], xIsNext := False\<rparr>
   \<and> applyMove initialGame 9 False \<noteq> initialGame"
proof -
  have "applyMove initialGame 9 False \<noteq> initialGame"
    unfolding click_nine by (simp add: initialGame_def emptyBoard_def)
  moreover have "\<not> isTerminal (squares initialGame)"
    by (simp add: isTerminal_def initialGame_def winner_emptyBoard isDraw_emptyBoard)
  ultimately show ?thesis
    using settled_initialGame click_nine by simp
qed

text \<open>
  Claim C6, amended. In a settled state a move changes nothing (board, active player,
  status, counters, mode) when the board is terminal, when the target cell is occupied, or
  when it is a manual move while O is to move in the mode against the computer. The model
  has no error value for \<^verbatim>\<open>handleSquareClick\<close>: the handler only returns.
\<close>

theorem applyMove_ignored:
  "settled st \<Longrightarrow>
   isTerminal (squares st) \<or> truthy (cellAt (squares st) i)
     \<or> (mode st = Ai \<and> \<not> xIsNext st \<and> \<not> isAI) \<Longrightarrow>
   applyMove st i isAI = st"
  by (rule applyMove_blocked)

theorem applyMove_ignored_witness:
  "settled computerToMove
   \<and> (mode computerToMove = Ai \<and> \<not> xIsNext computerToMove)
   \<and> applyMove computerToMove 0 False = computerToMove"
proof -
  have s: "settled computerToMove" by code_simp
  have m: "mode computerToMove = Ai \<and> \<not> xIsNext computerToMove \<and> \<not> False"
    by (simp add: computerToMove_def)
  from applyMove_ignored [OF s, of 0 False] m s show ?thesis by blast
qed

section \<open>Score accounting\<close>

lemma settled_gameOverEffect: "settled (gameOverEffect st)"
  by (simp add: settled_def gameOverEffect_def split: option.splits)

lemma settled_applyMove: "settled st \<Longrightarrow> settled (applyMove st i isAI)"
  by (simp add: applyMove_def settled_gameOverEffect split: option.splits)

lemma squares_gameOverEffect [simp]: "squares (gameOverEffect st) = squares st"
  by (simp add: gameOverEffect_def split: option.splits)

lemma xIsNext_gameOverEffect [simp]: "xIsNext (gameOverEffect st) = xIsNext st"
  by (simp add: gameOverEffect_def split: option.splits)

lemma mode_gameOverEffect [simp]: "mode (gameOverEffect st) = mode st"
  by (simp add: gameOverEffect_def split: option.splits)

lemma score_handleSquareClick:
  "handleSquareClick st i isAI = Some st' \<Longrightarrow> score st' = score st"
  by (auto simp: handleSquareClick_def split: if_splits)

lemma score_gameOverEffect:
  "score (gameOverEffect st) =
     (case fst (calculateWinner (squares st)) of
        Some PX \<Rightarrow> (score st)\<lparr>scoreX := scoreX (score st) + 1\<rparr>
      | Some PO \<Rightarrow> (score st)\<lparr>scoreO := scoreO (score st) + 1\<rparr>
      | None \<Rightarrow> if isDraw (squares st)
                then (score st)\<lparr>scoreD := scoreD (score st) + 1\<rparr>
                else score st)"
  by (simp add: gameOverEffect_def split: option.splits player.splits)

lemma score_applyMove:
  assumes "settled st" "\<not> isTerminal (squares st)"
  shows "score (applyMove st i isAI) =
     (case fst (calculateWinner (squares (applyMove st i isAI))) of
        Some PX \<Rightarrow> (score st)\<lparr>scoreX := scoreX (score st) + 1\<rparr>
      | Some PO \<Rightarrow> (score st)\<lparr>scoreO := scoreO (score st) + 1\<rparr>
      | None \<Rightarrow> if isDraw (squares (applyMove st i isAI))
                then (score st)\<lparr>scoreD := scoreD (score st) + 1\<rparr>
                else score st)"
proof (cases "handleSquareClick st i isAI")
  case None
  then have "applyMove st i isAI = st" by (simp add: applyMove_def)
  with assms(2) show ?thesis by (simp add: isTerminal_def)
next
  case (Some st')
  then have "applyMove st i isAI = gameOverEffect st'" by (simp add: applyMove_def)
  then show ?thesis
    by (simp only: score_gameOverEffect squares_gameOverEffect score_handleSquareClick [OF Some])
qed

lemma total_applyMove:
  assumes "settled st"
  shows "tallySum (score (applyMove st i isAI)) =
           (if \<not> isTerminal (squares st) \<and> isTerminal (squares (applyMove st i isAI))
            then tallySum (score st) + 1 else tallySum (score st))"
proof (cases "isTerminal (squares st)")
  case True
  with assms have "applyMove st i isAI = st" by (simp add: applyMove_blocked)
  with True show ?thesis by simp
next
  case False
  show ?thesis
    unfolding score_applyMove [OF assms False]
    using False by (auto simp: isTerminal_def tallySum_def split: option.splits player.splits)
qed

lemma applyMoves_terminal:
  "settled st \<Longrightarrow> isTerminal (squares st) \<Longrightarrow> applyMoves st ms = st"
  by (induction ms) (auto simp: applyMove_blocked)

lemma total_applyMoves:
  "settled st \<Longrightarrow> tallySum (score (applyMoves st ms)) \<le> tallySum (score st) + 1"
proof (induction ms arbitrary: st)
  case Nil
  then show ?case by simp
next
  case (Cons m ms)
  obtain i isAI where m: "m = (i, isAI)" by (cases m)
  let ?st = "applyMove st i isAI"
  have s: "settled ?st" using Cons.prems by (rule settled_applyMove)
  show ?case
  proof (cases "isTerminal (squares ?st)")
    case True
    with s have "applyMoves ?st ms = ?st" by (rule applyMoves_terminal)
    then show ?thesis using total_applyMove [OF Cons.prems, of i isAI] m
      by (simp split: if_splits)
  next
    case False
    then have "tallySum (score ?st) = tallySum (score st)"
      using total_applyMove [OF Cons.prems, of i isAI] by simp
    with Cons.IH [OF s] m show ?thesis by simp
  qed
qed

text \<open>
  Claim C7. In a settled state, a move on a terminal board changes nothing, so no counter
  moves again. A move on a board that is not terminal increases the counter of X by one
  when the new board is won by X, that of O when it is won by O, that of the draws when it
  is a draw, and leaves the other counters as they were; when the new board is not
  terminal no counter changes. The new state is settled again, and over any run of moves
  without a restart the sum of the counters grows by at most one.
\<close>

theorem score_once_per_game:
  "settled st \<Longrightarrow>
   (isTerminal (squares st) \<longrightarrow> applyMove st i isAI = st)
   \<and> (\<not> isTerminal (squares st) \<longrightarrow>
        score (applyMove st i isAI) =
          (case fst (calculateWinner (squares (applyMove st i isAI))) of
             Some PX \<Rightarrow> (score st)\<lparr>scoreX := scoreX (score st) + 1\<rparr>
           | Some PO \<Rightarrow> (score st)\<lparr>scoreO := scoreO (score st) + 1\<rparr>
           | None \<Rightarrow> if isDraw (squares (applyMove st i isAI))
                     then (score st)\<lparr>scoreD := scoreD (score st) + 1\<rparr>
                     else score st))
   \<and> settled (applyMove st i isAI)
   \<and> tallySum (score (applyMoves st ms)) \<le> tallySum (score st) + 1"
  using applyMove_blocked [of st i isAI] score_applyMove [of st i isAI]
    settled_applyMove [of st i isAI] total_applyMoves [of st ms]
  by blast

theorem score_once_per_game_witness:
  "settled xWinsNext \<and> \<not> isTerminal (squares xWinsNext)
   \<and> fst (calculateWinner (squares (applyMove xWinsNext 2 False))) = Some PX
   \<and> score (applyMove xWinsNext 2 False) = \<lparr>scoreX = 1, scoreO = 0, scoreD = 0\<rparr>
   \<and> tallySum (score (applyMoves xWinsNext [(2, False), (5, False)])) \<le> 1"
proof -
  have s: "settled xWinsNext" by code_simp
  have t: "\<not> isTerminal (squares xWinsNext)" by code_simp
  have w: "fst (calculateWinner (squares (applyMove xWinsNext 2 False))) = Some PX" by code_simp
  have z: "score xWinsNext = \<lparr>scoreX = 0, scoreO = 0, scoreD = 0\<rparr>"
    by (simp add: xWinsNext_def)
  from score_once_per_game [OF s, of 2 False "[(2, False), (5, False)]"] s t w
  show ?thesis by (simp add: z tallySum_def)
qed

section \<open>The balance of X and O\<close>

lemma countOf_append [simp]: "countOf p (xs @ ys) = countOf p xs + countOf p ys"
  by (simp add: countOf_def)

lemma countOf_put:
  assumes "i < length b" "\<not> truthy (b ! i)"
  shows "countOf p (put b i (Mark q)) = countOf p b + (if p = q then 1 else 0)"
proof -
  have b: "b = take i b @ b ! i # drop (Suc i) b"
    using assms(1) by (rule id_take_nth_drop)
  have u: "put b i (Mark q) = take i b @ Mark q # drop (Suc i) b"
    using assms(1) by (simp add: put_def upd_conv_take_nth_drop)
  have "countOf p b = countOf p (take i b) + countOf p (drop (Suc i) b)"
    using assms(2) by (subst b) (auto simp: countOf_def)
  moreover have "countOf p (put b i (Mark q))
      = countOf p (take i b) + (if p = q then 1 else 0) + countOf p (drop (Suc i) b)"
    unfolding u by (auto simp: countOf_def)
  ultimately show ?thesis by simp
qed

lemma countOf_emptyBoard [simp]: "countOf p emptyBoard = 0"
  by (simp add: countOf_def emptyBoard_def)

lemma valid_emptyBoard [simp]: "validBoard emptyBoard"
  by (simp add: validBoard_def emptyBoard_def list_all_iff)

lemma spread_valid: "validBoard b \<Longrightarrow> spread b = b"
  by (simp add: spread_def validBoard_def list_all_iff map_idI)

lemma balanced_click:
  assumes b: "balanced st" and i: "0 \<le> i" "nat i < 9"
  shows "balanced (applyMove st i isAI)"
proof (cases "handleSquareClick st i isAI")
  case None
  then show ?thesis using b by (simp add: applyMove_def)
next
  case (Some st')
  from b have v: "validBoard (squares st)" by (simp add: balanced_def)
  then have len: "nat i < length (squares st)" using i by (simp add: validBoard_def)
  from Some have free: "\<not> truthy (squares st ! nat i)"
    using i len by (auto simp: handleSquareClick_def cellAt_def get_def split: if_splits)
  from Some have st': "st' = st\<lparr>squares := put (squares st) (nat i) (Mark (if xIsNext st then PX else PO)),
                    xIsNext := \<not> xIsNext st\<rparr>"
    using i by (auto simp: handleSquareClick_def setAt_def split: if_splits)
  have a: "applyMove st i isAI = gameOverEffect st'" using Some by (simp add: applyMove_def)
  have "validBoard (squares st')" unfolding st' using v i by (simp add: valid_put)
  moreover have "countOf PX (squares st') = countOf PO (squares st') + (if xIsNext st' then 0 else 1)"
    unfolding st' using b by (simp add: balanced_def countOf_put [OF len free])
  ultimately show ?thesis
    unfolding a balanced_def by (simp add: settled_gameOverEffect)
qed

lemma balanced_restart: "balanced (restart st)"
  by (simp add: balanced_def restart_eq settled_def winner_emptyBoard isDraw_emptyBoard)

lemma balanced_modeChange: "balanced (modeChange st val)"
  by (simp add: balanced_def modeChange_eq settled_def winner_emptyBoard isDraw_emptyBoard)

lemma balanced_reset: "balanced st \<Longrightarrow> balanced (handleReset st)"
  by (simp add: balanced_def handleReset_def settled_def)

lemma balanced_computer:
  assumes b: "balanced st" and c: "computerTurn st"
  shows "balanced (computerMove st)"
proof -
  from b have v: "validBoard (squares st)" by (simp add: balanced_def)
  from c have "\<not> every (squares st)" by (auto simp: computerTurn_def isDraw_def)
  with v have ne: "legalMoves (squares st) \<noteq> {}" by (simp add: valid_every)
  from computeAIMove_best [OF v ne, of PO]
  have "0 \<le> computeAIMove (squares st) PO" "nat (computeAIMove (squares st) PO) < 9"
    by (auto simp: legalMoves_def)
  then show ?thesis
    unfolding computerMove_def spread_valid [OF v] using b by (intro balanced_click)
qed

lemma reachable_balanced: "reachable st \<Longrightarrow> balanced st"
proof (induction rule: reachable.induct)
  case r_init
  show ?case
    by (simp add: balanced_def initialGame_def settled_def winner_emptyBoard isDraw_emptyBoard)
next
  case (r_click st i)
  then show ?case by (intro balanced_click) auto
next
  case (r_restart st)
  show ?case by (rule balanced_restart)
next
  case (r_reset st)
  then show ?case by (intro balanced_reset)
next
  case (r_mode st val)
  show ?case by (rule balanced_modeChange)
next
  case (r_computer st)
  then show ?case by (intro balanced_computer)
qed

lemma click_minus_one:
  "applyMove initialGame (-1) False = initialGame\<lparr>xIsNext := False\<rparr>"
proof -
  have h: "handleSquareClick initialGame (-1) False
      = Some (initialGame\<lparr>xIsNext := False\<rparr>)"
    by (simp add: handleSquareClick_def initialGame_def cellAt_def setAt_def winner_emptyBoard)
  show ?thesis
    unfolding applyMove_def h
    by (simp add: gameOverEffect_def winner_emptyBoard isDraw_emptyBoard initialGame_def)
qed

lemma click_minus_one_then_zero:
  "squares (applyMove (applyMove initialGame (-1) False) 0 False)
     = [Mark PO, Null, Null, Null, Null, Null, Null, Null, Null]"
  unfolding click_minus_one by code_simp

text \<open>
  Claim C9 says that every board reached through the public operations has as many X as O
  or one more. The handler \<^verbatim>\<open>handleSquareClick\<close> takes any index: called on the
  initial state with index -1 it finds \<^verbatim>\<open>squares[-1]\<close> undefined, writes X to a property
  that is not an element and passes the turn; called next with index 0 it places O. The
  board then holds one O and no X.
\<close>

theorem reachable_counts_any_index_counterexample:
  "reachableAnyIndex (applyMove (applyMove initialGame (-1) False) 0 False)
   \<and> squares (applyMove (applyMove initialGame (-1) False) 0 False)
       = [Mark PO, Null, Null, Null, Null, Null, Null, Null, Null]
   \<and> countOf PX (squares (applyMove (applyMove initialGame (-1) False) 0 False)) = 0
   \<and> countOf PO (squares (applyMove (applyMove initialGame (-1) False) 0 False)) = 1"
proof -
  have "reachableAnyIndex (applyMove (applyMove initialGame (-1) False) 0 False)"
    by (intro a_click a_init)
  then show ?thesis
    by (simp add: click_minus_one_then_zero countOf_def)
qed

text \<open>
  Claim C9, amended. In every state reached through the rendered page, where a click
  carries the index of one of the nine squares (0 to 8), the board has as many X as O, or
  one more X than O: never more than one X in excess, and never more O than X.
\<close>

theorem reachable_counts:
  "reachable st \<Longrightarrow>
   (countOf PX (squares st) = countOf PO (squares st)
      \<or> countOf PX (squares st) = countOf PO (squares st) + 1)
   \<and> countOf PX (squares st) \<le> countOf PO (squares st) + 1
   \<and> countOf PO (squares st) \<le> countOf PX (squares st)"
  using reachable_balanced [of st] by (auto simp: balanced_def split: if_splits)

theorem reachable_counts_witness:
  "reachable (applyMove initialGame 4 False)
   \<and> countOf PX (squares (applyMove initialGame 4 False)) = 1
   \<and> countOf PO (squares (applyMove initialGame 4 False)) = 0"
proof -
  have r: "reachable (applyMove initialGame (int 4) False)"
    by (intro r_click r_init) simp
  then have r': "reachable (applyMove initialGame 4 False)" by simp
  have "countOf PX (squares (applyMove initialGame 4 False)) = 1" by code_simp
  moreover have "countOf PO (squares (applyMove initialGame 4 False)) = 0" by code_simp
  ultimately show ?thesis using reachable_counts [OF r'] r' by simp
qed

section \<open>The engine never loses\<close>

lemma empties_le: "empties b \<le> 9"
  unfolding empties_def using length_filter_le [of "\<lambda>i. \<not> truthy (get b i)" "[0..<9]"] by simp

lemma human_neq [simp]: "human ai \<noteq> ai"
  by (simp add: human_def)

lemma human_human [simp]: "human (human ai) = ai"
  by (cases ai) (simp_all add: human_def)

lemma minimax_sign_shift:
  "validBoard b \<Longrightarrow> d + int (empties b) < 10 \<Longrightarrow> d' + int (empties b) < 10 \<Longrightarrow>
   Fin 0 \<le> minimax ai b d t \<longleftrightarrow> Fin 0 \<le> minimax ai b d' t"
proof (induction "empties b" arbitrary: b d d' t rule: less_induct)
  case less
  let ?w = "fst (calculateWinner b)"
  consider (won) "?w = Some ai" | (lost) "?w \<noteq> Some ai" "?w = Some (human ai)"
    | (full) "?w \<noteq> Some ai" "?w \<noteq> Some (human ai)" "every b"
    | (unfinished) "?w \<noteq> Some ai" "?w \<noteq> Some (human ai)" "\<not> every b"
    by blast
  then show ?case
  proof cases
    case won
    then show ?thesis using less.prems by (simp add: minimax_won)
  next
    case lost
    then show ?thesis using less.prems by (simp add: minimax_lost)
  next
    case full
    then show ?thesis by (simp add: minimax_full)
  next
    case unfinished
    with less.prems have ne: "legalMoves b \<noteq> {}" by (simp add: valid_every)
    have sub: "Fin 0 \<le> minimax ai (put b i (Mark p)) (d + 1) t'
               \<longleftrightarrow> Fin 0 \<le> minimax ai (put b i (Mark p)) (d' + 1) t'"
      if "i \<in> legalMoves b" for i p t'
    proof -
      have e: "empties (put b i (Mark p)) < empties b" using that by (rule legalMoves_put)
      have v: "validBoard (put b i (Mark p))"
        using that less.prems(1) by (intro valid_put) (auto simp: legalMoves_def)
      show ?thesis using e less.prems(2,3) by (intro less.hyps [OF e v]) auto
    qed
    show ?thesis
    proof (cases t)
      case True
      then have tt: "t = True" by simp
      show ?thesis
        unfolding tt minimax_max [OF unfinished ne]
        using ne sub by (simp add: Max_ge_iff)
    next
      case False
      then have tf: "t = False" by simp
      show ?thesis
        unfolding tf minimax_min [OF unfinished ne]
        using ne sub by (simp add: Min_ge_iff)
    qed
  qed
qed

lemma minimax_sign_zero:
  assumes "validBoard b" "i \<in> legalMoves b"
  shows "Fin 0 \<le> minimax ai (put b i (Mark p)) 1 t \<longleftrightarrow> Fin 0 \<le> minimax ai (put b i (Mark p)) 0 t"
proof -
  have "empties (put b i (Mark p)) < empties b" using assms(2) by (rule legalMoves_put)
  with empties_le [of b] have "1 + int (empties (put b i (Mark p))) < 10" by simp
  moreover have "validBoard (put b i (Mark p))"
    using assms by (intro valid_put) (auto simp: legalMoves_def)
  ultimately show ?thesis by (intro minimax_sign_shift) auto
qed

lemma holdsOut_not_lost: "holdsOut ai b t \<Longrightarrow> fst (calculateWinner b) \<noteq> Some (human ai)"
proof
  assume h: "holdsOut ai b t" and w: "fst (calculateWinner b) = Some (human ai)"
  then have "minimax ai b 0 t = Fin (0 - 10)" by (intro minimax_lost) auto
  with h show False by (simp add: holdsOut_def)
qed

lemma open_board:
  assumes "\<not> isTerminal b"
  shows "fst (calculateWinner b) \<noteq> Some ai" "fst (calculateWinner b) \<noteq> Some (human ai)" "\<not> every b"
  using assms by (auto simp: isTerminal_def isDraw_def)

lemma holdsOut_human_move:
  assumes v: "validBoard b" and n: "\<not> isTerminal b" and h: "holdsOut ai b False"
    and i: "i \<in> legalMoves b"
  shows "holdsOut ai (put b i (Mark (human ai))) True"
proof -
  from v n have ne: "legalMoves b \<noteq> {}" using open_board(3) [OF n] by (simp add: valid_every)
  from h have "Fin 0 \<le> Min ((\<lambda>i. minimax ai (put b i (Mark (human ai))) (0 + 1) True) ` legalMoves b)"
    unfolding holdsOut_def minimax_min [OF open_board [OF n] ne] .
  with ne i have "Fin 0 \<le> minimax ai (put b i (Mark (human ai))) 1 True"
    by (simp add: Min_ge_iff)
  then show ?thesis unfolding holdsOut_def by (simp add: minimax_sign_zero [OF v i])
qed

lemma holdsOut_engine_move:
  assumes v: "validBoard b" and n: "\<not> isTerminal b" and h: "holdsOut ai b True"
  shows "holdsOut ai (put b (nat (computeAIMove b ai)) (Mark ai)) False"
proof -
  from v n have ne: "legalMoves b \<noteq> {}" using open_board(3) [OF n] by (simp add: valid_every)
  from h have "Fin 0 \<le> Max ((\<lambda>i. minimax ai (put b i (Mark ai)) (0 + 1) False) ` legalMoves b)"
    unfolding holdsOut_def minimax_max [OF open_board [OF n] ne] .
  with ne obtain i where i: "i \<in> legalMoves b" "Fin 0 \<le> minimax ai (put b i (Mark ai)) 1 False"
    by (auto simp: Max_ge_iff)
  then have "Fin 0 \<le> minimax ai (put b i (Mark ai)) 0 False"
    by (simp add: minimax_sign_zero [OF v i(1)])
  also have "\<dots> \<le> minimax ai (put b (nat (computeAIMove b ai)) (Mark ai)) 0 False"
    using computeAIMove_best [OF v ne, of ai] i(1) by blast
  finally show ?thesis by (simp add: holdsOut_def)
qed

lemma anyMove_iff: "anyMove f xs \<longleftrightarrow> (\<exists>i \<in> set xs. f i)"
  by (induction xs) auto

lemma allMoves_iff: "allMoves f xs \<longleftrightarrow> (\<forall>i \<in> set xs. f i)"
  by (induction xs) auto

lemma set_tryOrder: "i \<in> set tryOrder \<Longrightarrow> i < 9"
  by (auto simp: tryOrder_def)

lemma set_allCells: "i < 9 \<Longrightarrow> i \<in> set allCells"
proof -
  assume "i < 9"
  then have "i \<in> set [0..<9]" by simp
  also have "[0..<9] = allCells" by (simp add: allCells_def upt_rec)
  finally show ?thesis .
qed

lemma holds_sound: "holds n ai b t \<Longrightarrow> validBoard b \<Longrightarrow> holdsOut ai b t"
proof (induction n arbitrary: b t)
  case 0
  then show ?case by simp
next
  case (Suc n)
  let ?w = "fst (calculateWinner b)"
  consider (won) "?w = Some ai" | (lost) "?w \<noteq> Some ai" "?w = Some (human ai)"
    | (full) "?w \<noteq> Some ai" "?w \<noteq> Some (human ai)" "every b"
    | (unfinished) "?w \<noteq> Some ai" "?w \<noteq> Some (human ai)" "\<not> every b"
    by blast
  then show ?case
  proof cases
    case won
    then show ?thesis by (simp add: holdsOut_def minimax_won)
  next
    case lost
    with Suc.prems(1) show ?thesis by (simp add: Let_def)
  next
    case full
    then show ?thesis by (simp add: holdsOut_def minimax_full)
  next
    case unfinished
    with Suc.prems(2) have ne: "legalMoves b \<noteq> {}" by (simp add: valid_every)
    show ?thesis
    proof (cases t)
      case True
      then have tt: "t = True" by simp
      from Suc.prems(1) unfinished obtain i where
        i: "\<not> truthy (get b i)" "i \<in> set tryOrder"
           "holds n ai (put b i (Mark ai)) False"
        unfolding tt by (auto simp: Let_def anyMove_iff split: if_splits)
      then have l: "i \<in> legalMoves b" by (auto simp: legalMoves_def dest: set_tryOrder)
      then have "validBoard (put b i (Mark ai))"
        using Suc.prems(2) by (intro valid_put) (auto simp: legalMoves_def)
      with i(3) have "holdsOut ai (put b i (Mark ai)) False" by (rule Suc.IH)
      then have "Fin 0 \<le> minimax ai (put b i (Mark ai)) (0 + 1) False"
        by (simp add: holdsOut_def minimax_sign_zero [OF Suc.prems(2) l])
      with l ne show ?thesis
        unfolding tt holdsOut_def minimax_max [OF unfinished ne]
        by (auto simp: Max_ge_iff)
    next
      case False
      then have tf: "t = False" by simp
      have "Fin 0 \<le> minimax ai (put b i (Mark (human ai))) (0 + 1) True"
        if l: "i \<in> legalMoves b" for i
      proof -
        from l have "i \<in> set allCells" "\<not> truthy (get b i)"
          by (auto simp: legalMoves_def intro: set_allCells)
        with Suc.prems(1) unfinished have h: "holds n ai (put b i (Mark (human ai))) True"
          unfolding tf by (simp add: Let_def allMoves_iff split: if_splits)
        have "validBoard (put b i (Mark (human ai)))"
          using l Suc.prems(2) by (intro valid_put) (auto simp: legalMoves_def)
        with h have "holdsOut ai (put b i (Mark (human ai))) True" by (rule Suc.IH)
        then show ?thesis
          by (simp add: holdsOut_def minimax_sign_zero [OF Suc.prems(2) l])
      qed
      with ne show ?thesis
        unfolding tf holdsOut_def minimax_min [OF unfinished ne]
        by (simp add: Min_ge_iff)
    qed
  qed
qed

lemma other_player: "p \<noteq> q \<Longrightarrow> p = human q"
  by (cases p; cases q) (simp_all add: human_def)

lemma engine_move_legal:
  assumes "validBoard b" "\<not> isTerminal b"
  shows "setAt b (computeAIMove b p) (Mark p) = put b (nat (computeAIMove b p)) (Mark p)"
    and "nat (computeAIMove b p) \<in> legalMoves b"
proof -
  from assms have ne: "legalMoves b \<noteq> {}" using open_board(3) [OF assms(2)] by (simp add: valid_every)
  from computeAIMove_best [OF assms(1) ne, of p]
  show "setAt b (computeAIMove b p) (Mark p) = put b (nat (computeAIMove b p)) (Mark p)"
    and "nat (computeAIMove b p) \<in> legalMoves b"
    by (simp_all add: setAt_def)
qed

lemma holds_first: "holds 10 PX emptyBoard True"
  by code_simp

lemma holds_second: "holds 10 PO emptyBoard False"
  by code_simp

lemma holdsOut_start: "holdsOut q emptyBoard (PX = q)"
proof (cases q)
  case PX
  with holds_sound [OF holds_first valid_emptyBoard] show ?thesis by simp
next
  case PO
  with holds_sound [OF holds_second valid_emptyBoard] show ?thesis by simp
qed

lemma holdsOut_other_move:
  assumes v: "validBoard b" and n: "\<not> isTerminal b" and h: "holdsOut q b (p = q)"
    and pq: "p \<noteq> q" and i: "i \<in> legalMoves b"
  shows "validBoard (put b i (Mark p)) \<and> holdsOut q (put b i (Mark p)) (human p = q)"
proof -
  from pq have p: "p = human q" by (rule other_player)
  from h pq have "holdsOut q b False" by simp
  from holdsOut_human_move [OF v n this i] have "holdsOut q (put b i (Mark p)) True"
    by (simp add: p)
  moreover have "validBoard (put b i (Mark p))"
    using v i by (intro valid_put) (auto simp: legalMoves_def)
  ultimately show ?thesis by (simp add: p)
qed

lemma play_invariant:
  assumes e: "engine q"
  shows "play engine b p \<Longrightarrow> validBoard b \<and> holdsOut q b (p = q)"
proof (induction rule: play.induct)
  case p_start
  show ?case using holdsOut_start [of q] by (simp add: valid_emptyBoard)
next
  case (p_engine b p)
  then have v: "validBoard b" and h: "holdsOut q b (p = q)" by simp_all
  note m = engine_move_legal [OF v p_engine(2), of p]
  show ?case
  proof (cases "p = q")
    case True
    from h True have "holdsOut q b True" by simp
    from holdsOut_engine_move [OF v p_engine(2) this]
    have "holdsOut q (put b (nat (computeAIMove b q)) (Mark q)) False" .
    moreover have "validBoard (put b (nat (computeAIMove b q)) (Mark q))"
      using v m(2) True by (intro valid_put) (auto simp: legalMoves_def)
    ultimately show ?thesis using m(1) True by simp
  next
    case False
    from holdsOut_other_move [OF v p_engine(2) h False m(2)] show ?thesis
      by (simp add: m(1))
  qed
next
  case (p_free b p i)
  then have v: "validBoard b" and h: "holdsOut q b (p = q)" by simp_all
  from p_free(3) e have "p \<noteq> q" by auto
  from holdsOut_other_move [OF v p_free(2) h this p_free(4)] show ?case .
qed

lemma play_not_lost: "engine q \<Longrightarrow> play engine b p \<Longrightarrow> fst (calculateWinner b) \<noteq> Some (human q)"
  using play_invariant [of engine q b p] holdsOut_not_lost [of q b "p = q"] by blast

lemma play_both_draw:
  assumes "play (\<lambda>_. True) b p" "isTerminal b"
  shows "isDraw b"
proof -
  have "fst (calculateWinner b) \<noteq> Some (human PO)" "fst (calculateWinner b) \<noteq> Some (human PX)"
    using assms(1) play_not_lost [of "\<lambda>_. True" PO b p] play_not_lost [of "\<lambda>_. True" PX b p]
    by simp_all
  then have "fst (calculateWinner b) = None"
    using player.exhaust by (cases "fst (calculateWinner b)") (auto simp: human_def)
  with assms(2) show ?thesis by (simp add: isTerminal_def)
qed

lemma selfPlay_play:
  "play (\<lambda>_. True) b p \<Longrightarrow> \<exists>p'. play (\<lambda>_. True) (selfPlay n b p) p'"
proof (induction n arbitrary: b p)
  case 0
  then show ?case by auto
next
  case (Suc n)
  show ?case
  proof (cases "isTerminal b")
    case True
    with Suc.prems show ?thesis by auto
  next
    case False
    with Suc.prems have "play (\<lambda>_. True) (setAt b (computeAIMove b p) (Mark p)) (human p)"
      by (intro p_engine) auto
    from Suc.IH [OF this] False show ?thesis by simp
  qed
qed

lemma no_moves_terminal:
  assumes "validBoard b" "empties b = 0"
  shows "isTerminal b"
proof -
  from assms(2) have "legalMoves b = {}"
    by (simp add: empties_card legalMoves_def)
  with assms(1) have "every b" by (simp add: valid_every)
  then show ?thesis by (auto simp: isTerminal_def isDraw_def)
qed

lemma selfPlay_terminal:
  "validBoard b \<Longrightarrow> empties b \<le> n \<Longrightarrow> isTerminal (selfPlay n b p)"
proof (induction n arbitrary: b p)
  case 0
  then show ?case by (simp add: no_moves_terminal)
next
  case (Suc n)
  show ?case
  proof (cases "isTerminal b")
    case True
    then show ?thesis by simp
  next
    case False
    note m = engine_move_legal [OF Suc.prems(1) False, of p]
    have v: "validBoard (put b (nat (computeAIMove b p)) (Mark p))"
      using Suc.prems(1) m(2) by (intro valid_put) (auto simp: legalMoves_def)
    have "empties (put b (nat (computeAIMove b p)) (Mark p)) < empties b"
      using m(2) by (rule legalMoves_put)
    with Suc.prems(2) have "empties (put b (nat (computeAIMove b p)) (Mark p)) \<le> n" by simp
    from Suc.IH [OF v this] False show ?thesis by (simp add: m(1))
  qed
qed

text \<open>
  Claim C1. In a game from the empty board in which the engine chooses every move of a
  symbol, whatever legal moves the other symbol makes, no board of the game is won by the
  other symbol; in particular the final board is not. When the engine chooses the moves of
  both symbols, every terminal board of the game is a draw, and the game played for nine
  moves is such a game and ends in a draw.
\<close>

theorem engine_never_loses:
  "(engine q \<and> play engine b p \<longrightarrow> fst (calculateWinner b) \<noteq> Some (human q))
   \<and> (play (\<lambda>_. True) b p \<and> isTerminal b \<longrightarrow> isDraw b)
   \<and> (\<exists>p'. play (\<lambda>_. True) (selfPlay 9 emptyBoard PX) p')
   \<and> isDraw (selfPlay 9 emptyBoard PX)"
proof (intro conjI impI)
  assume "engine q \<and> play engine b p"
  then show "fst (calculateWinner b) \<noteq> Some (human q)" using play_not_lost by blast
next
  assume "play (\<lambda>_. True) b p \<and> isTerminal b"
  then show "isDraw b" using play_both_draw by blast
next
  show e: "\<exists>p'. play (\<lambda>_. True) (selfPlay 9 emptyBoard PX) p'"
    by (intro selfPlay_play p_start)
  have "isTerminal (selfPlay 9 emptyBoard PX)"
    using empties_le [of emptyBoard] by (intro selfPlay_terminal valid_emptyBoard)
  with e show "isDraw (selfPlay 9 emptyBoard PX)" using play_both_draw by blast
qed

theorem engine_never_loses_witness:
  "play (\<lambda>p. p = PO) (setAt centreBoard (computeAIMove centreBoard PO) (Mark PO)) PX
   \<and> fst (calculateWinner (setAt centreBoard (computeAIMove centreBoard PO) (Mark PO))) \<noteq> Some PX"
proof -
  have l: "4 \<in> legalMoves emptyBoard" unfolding legalMoves_code by code_simp
  have t0: "\<not> isTerminal emptyBoard" by code_simp
  have t1: "\<not> isTerminal centreBoard" by code_simp
  have "play (\<lambda>p. p = PO) (put emptyBoard 4 (Mark PX)) (human PX)"
    using t0 l by (intro p_free p_start) auto
  then have "play (\<lambda>p. p = PO) centreBoard PO" by (simp add: centreBoard_def human_def)
  then have "play (\<lambda>p. p = PO) (setAt centreBoard (computeAIMove centreBoard PO) (Mark PO)) (human PO)"
    using t1 by (intro p_engine) auto
  then have p: "play (\<lambda>p. p = PO) (setAt centreBoard (computeAIMove centreBoard PO) (Mark PO)) PX"
    by (simp add: human_def)
  from engine_never_loses [of "\<lambda>p. p = PO" PO "setAt centreBoard (computeAIMove centreBoard PO) (Mark PO)" PX] p
  show ?thesis by (simp add: human_def)
qed

end
